theory Spec2Isabelle
  imports Main "HOL-Library.Multiset"
begin

section \<open>Source loading\<close>

text \<open>
  The two notebooks turn raw inputs into source objects of the SDK.
  The movies notebook builds one \<open>URL\<close> object per address with a list comprehension:
  \<^verbatim>\<open>sources = [URL(url) for url in urls]\<close>
  The UFC notebook walks a directory listing and appends one source object per file:
  \<^verbatim>\<open>
  src_files = "examples/ufc/data/fight"
  sources = []
  for file in os.listdir(src_files):
      sources.append(Source(os.path.join(src_files, file)))
  \<close>
  \<open>URL\<close> is a class of the SDK; the object is modelled by the constructor call that made
  it. \<open>Source\<close> is a factory function of the SDK and is not part of the notebooks: given
  a path it returns a source object or raises an exception, as it does for a file whose
  format it does not support. The factory is a parameter of the loop. The loop has no
  exception handler: the first exception ends it, and the list \<open>sources\<close> keeps the
  objects appended before.
\<close>

datatype py_error = ValueError | Exception string

datatype source = URL string | FileSource string

definition sources_from_urls :: "string list \<Rightarrow> source list" where
  "sources_from_urls urls = [URL url. url \<leftarrow> urls]"

text \<open>
  \<open>os.path.join\<close> with two arguments on a POSIX system: a second component that starts
  with the separator replaces the first; an empty first component, or one that ends with
  the separator, is extended without a new separator.
\<close>

definition path_join :: "string \<Rightarrow> string \<Rightarrow> string" where
  "path_join a b =
     (if b \<noteq> [] \<and> hd b = CHR ''/'' then b
      else if a = [] \<or> last a = CHR ''/'' then a @ b
      else a @ ''/'' @ b)"

definition src_files :: string where
  "src_files = ''examples/ufc/data/fight''"

text \<open>
  The \<open>for\<close> loop over the directory listing, with the list it appends to. The outcome
  is the exception that ended the loop, if any, and the list \<open>sources\<close> as the loop
  left it.
\<close>

fun append_sources ::
  "(string \<Rightarrow> py_error + 's) \<Rightarrow> 's list \<Rightarrow> string list \<Rightarrow> py_error option \<times> 's list"
where
  "append_sources Source sources [] = (None, sources)"
| "append_sources Source sources (file # files) =
     (case Source (path_join src_files file) of
        Inl e \<Rightarrow> (Some e, sources)
      | Inr s \<Rightarrow> append_sources Source (sources @ [s]) files)"

definition sources_from_dir ::
  "(string \<Rightarrow> py_error + 's) \<Rightarrow> string list \<Rightarrow> py_error option \<times> 's list"
where
  "sources_from_dir Source listing = append_sources Source [] listing"

text \<open>
  A factory for concrete runs. It supports HTML files only: a path that ends in
  \<open>.html\<close> gives a source object, any other path is rejected as an unsupported format.
\<close>

definition html_only :: "string \<Rightarrow> py_error + source" where
  "html_only path =
     (if drop (length path - 5) path = ''.html'' then Inr (FileSource path)
      else Inl (Exception ''Unsupported file format.''))"

section \<open>The size of the sample\<close>

text \<open>
  The UFC notebook infers the ontology from a sample of the sources:
  \<^verbatim>\<open>
  percent = 0.1
  sampled_sources = random.sample(sources, round(len(sources) * percent))
  \<close>
  \<open>percent\<close> is a binary double, the product is a double multiplication and \<open>round\<close>
  rounds a double to an integer, ties to even. Only non-negative finite doubles occur, so a
  double is modelled exactly, as a natural mantissa and a binary exponent: the pair stands
  for \<open>mant * 2 ^ expo\<close>. An arithmetic result is the exact result rounded to 53
  significant bits, ties to even, as IEEE 754 prescribes. The exponent range is not
  modelled: \<open>len\<close> is below \<open>2 ^ 63\<close>, far from overflow and underflow.
\<close>

record pyfloat =
  mant :: nat
  expo :: int

text \<open>\<open>int.bit_length\<close>: the number of bits of a natural number.\<close>

fun bit_length :: "nat \<Rightarrow> nat" where
  "bit_length n = (if n = 0 then 0 else Suc (bit_length (n div 2)))"

declare bit_length.simps [simp del]

text \<open>\<open>m / 2 ^ k\<close> rounded to the nearest integer, a tie going to the even neighbour.\<close>

definition round_half_even :: "nat \<Rightarrow> nat \<Rightarrow> nat" where
  "round_half_even m k =
     (let q = m div 2 ^ k; r = m mod 2 ^ k
      in if 2 * r > 2 ^ k \<or> (2 * r = 2 ^ k \<and> odd q) then q + 1 else q)"

text \<open>The double nearest to the exact value \<open>m * 2 ^ e\<close>.\<close>

definition round_to_double :: "nat \<Rightarrow> int \<Rightarrow> pyfloat" where
  "round_to_double m e =
     (let b = bit_length m
      in if b \<le> 53 then \<lparr>mant = m, expo = e\<rparr>
         else \<lparr>mant = round_half_even m (b - 53), expo = e + int (b - 53)\<rparr>)"

text \<open>The conversion of the integer operand of \<open>int * float\<close>, and the product.\<close>

definition int_to_float :: "nat \<Rightarrow> pyfloat" where
  "int_to_float n = round_to_double n 0"

definition float_mul :: "pyfloat \<Rightarrow> pyfloat \<Rightarrow> pyfloat" where
  "float_mul x y = round_to_double (mant x * mant y) (expo x + expo y)"

text \<open>The one-argument \<open>round\<close> of Python 3 on a double.\<close>

definition py_round :: "pyfloat \<Rightarrow> nat" where
  "py_round x =
     (if 0 \<le> expo x then mant x * 2 ^ nat (expo x)
      else round_half_even (mant x) (nat (- expo x)))"

text \<open>The literal \<open>0.1\<close>: the double \<open>0x1.999999999999ap-4\<close>.\<close>

definition percent :: pyfloat where
  "percent = \<lparr>mant = 7205759403792794, expo = - 56\<rparr>"

text \<open>\<open>round(len(sources) * percent)\<close>, as a function of \<open>len(sources)\<close>.\<close>

definition sample_size :: "nat \<Rightarrow> nat" where
  "sample_size n = py_round (float_mul (int_to_float n) percent)"

text \<open>
  The reading of \<open>round(n * 0.1)\<close> in exact arithmetic, for comparison: the integer
  nearest to \<open>n / 10\<close>, a tie going to the even neighbour.
\<close>

definition round_tenth :: "nat \<Rightarrow> nat" where
  "round_tenth n =
     (let q = n div 10; r = n mod 10
      in if r > 5 \<or> (r = 5 \<and> odd q) then q + 1 else q)"

section \<open>Sampling without replacement\<close>

text \<open>
  \<open>random.sample(population, k)\<close> of the standard library (CPython, \<open>Lib/random.py\<close>):
  \<^verbatim>\<open>
  n = len(population)
  randbelow = self._randbelow
  if not 0 <= k <= n:
      raise ValueError("Sample larger than population or is negative")
  result = [None] * k
  setsize = 21
  if k > 5:
      setsize += 4 ** _ceil(_log(k * 3, 4))
  if n <= setsize:
      pool = list(population)
      for i in range(k):
          j = randbelow(n - i)
          result[i] = pool[j]
          pool[j] = pool[n - i - 1]
  else:
      selected = set()
      selected_add = selected.add
      for i in range(k):
          j = randbelow(n)
          while j in selected:
              j = randbelow(n)
          selected_add(j)
          result[i] = population[j]
  return result
  \<close>
  The generator is an explicit tape of raw draws: \<open>randbelow(m)\<close> takes the next draw
  \<open>t\<close> off the tape and returns \<open>t mod m\<close>, a number below \<open>m\<close>. Every finite run
  of a generator that keeps the contract of \<open>randbelow\<close> is some tape. A tape that ends
  while a loop still asks for a draw gives \<open>None\<close>: the call has not returned within the
  draws supplied. The list \<open>result\<close> holds Python's \<open>None\<close> until a slot is filled.
  \<open>_ceil(_log(k * 3, 4))\<close> is floating-point library code and is a parameter.
\<close>

function pool_loop ::
  "nat \<Rightarrow> nat \<Rightarrow> nat \<Rightarrow> nat list \<Rightarrow> 'a list \<Rightarrow> 'a option list \<Rightarrow> 'a option list option"
where
  "pool_loop n k i tape pool result =
     (if i < k then
        (case tape of
           [] \<Rightarrow> None
         | t # tape' \<Rightarrow>
             (let j = t mod (n - i)
              in pool_loop n k (i + 1) tape'
                   (pool[j := pool ! (n - i - 1)]) (result[i := Some (pool ! j)])))
      else Some result)"
  by pat_completeness auto
termination
  by (relation "measure (\<lambda>(n, k, i, tape, pool, result). k - i)") auto

text \<open>The first draw and the \<open>while j in selected\<close> loop that redraws.\<close>

fun fresh_index :: "nat \<Rightarrow> nat set \<Rightarrow> nat list \<Rightarrow> (nat \<times> nat list) option" where
  "fresh_index n selected [] = None"
| "fresh_index n selected (t # tape) =
     (let j = t mod n
      in if j \<in> selected then fresh_index n selected tape else Some (j, tape))"

function set_loop ::
  "nat \<Rightarrow> nat \<Rightarrow> nat \<Rightarrow> nat list \<Rightarrow> 'a list \<Rightarrow> nat set \<Rightarrow> 'a option list
     \<Rightarrow> 'a option list option"
where
  "set_loop n k i tape population selected result =
     (if i < k then
        (case fresh_index n selected tape of
           None \<Rightarrow> None
         | Some (j, tape') \<Rightarrow>
             set_loop n k (i + 1) tape' population (insert j selected)
               (result[i := Some (population ! j)]))
      else Some result)"
  by pat_completeness auto
termination
  by (relation "measure (\<lambda>(n, k, i, tape, population, selected, result). k - i)") auto

declare pool_loop.simps [simp del] set_loop.simps [simp del]

definition random_sample ::
  "(nat \<Rightarrow> nat) \<Rightarrow> nat list \<Rightarrow> 'a list \<Rightarrow> nat \<Rightarrow> (py_error + 'a option list) option"
where
  "random_sample ceil_log4 tape population k =
     (let n = length population
      in if \<not> k \<le> n then Some (Inl ValueError)
         else
           (let result = replicate k None;
                setsize = (if k > 5 then 21 + 4 ^ ceil_log4 (k * 3) else 21)
            in if n \<le> setsize
               then map_option Inr (pool_loop n k 0 tape population result)
               else map_option Inr (set_loop n k 0 tape population {} result)))"

text \<open>The statement of the notebook that draws the sample.\<close>

definition sampled_sources ::
  "(nat \<Rightarrow> nat) \<Rightarrow> nat list \<Rightarrow> 'a list \<Rightarrow> (py_error + 'a option list) option"
where
  "sampled_sources ceil_log4 tape sources =
     random_sample ceil_log4 tape sources (sample_size (length sources))"

section \<open>Source loading: results\<close>

text \<open>
  What the loop has done when it stops with the list \<open>acc @ new\<close>: every new object
  is the one the factory returned for the file at its position, and the loop either went
  through the whole listing or stopped at the first file the factory rejected.
\<close>

lemma append_sources_outcome:
  "append_sources Source acc files = (raised, sources) \<Longrightarrow>
     \<exists>new. sources = acc @ new
       \<and> (\<forall>i < length new. Source (path_join src_files (files ! i)) = Inr (new ! i))
       \<and> (case raised of
             None \<Rightarrow> length new = length files
           | Some e \<Rightarrow> length new < length files
                        \<and> Source (path_join src_files (files ! length new)) = Inl e)"
proof (induction files arbitrary: acc)
  case Nil
  then show ?case by auto
next
  case (Cons name files)
  show ?case
  proof (cases "Source (path_join src_files name)")
    case (Inl e)
    then have "raised = Some e" and "sources = acc" using Cons.prems by simp_all
    then show ?thesis using Inl by simp
  next
    case (Inr s)
    then have "append_sources Source (acc @ [s]) files = (raised, sources)"
      using Cons.prems by simp
    from Cons.IH[OF this] obtain new where new: "sources = (acc @ [s]) @ new"
      "\<forall>i < length new. Source (path_join src_files (files ! i)) = Inr (new ! i)"
      "case raised of
         None \<Rightarrow> length new = length files
       | Some e \<Rightarrow> length new < length files
                    \<and> Source (path_join src_files (files ! length new)) = Inl e"
      by blast
    have "sources = acc @ (s # new)" using new(1) by simp
    moreover have "\<forall>i < length (s # new).
        Source (path_join src_files ((name # files) ! i)) = Inr ((s # new) ! i)"
      using new(2) Inr by (auto simp: nth_Cons split: nat.splits)
    moreover have "case raised of
         None \<Rightarrow> length (s # new) = length (name # files)
       | Some e \<Rightarrow> length (s # new) < length (name # files)
                    \<and> Source (path_join src_files ((name # files) ! length (s # new))) = Inl e"
      using new(3) by (cases raised) simp_all
    ultimately show ?thesis by blast
  qed
qed

lemma sources_from_dir_completed:
  assumes "sources_from_dir Source listing = (None, sources)"
  shows "length sources = length listing"
    and "\<forall>i < length listing. Source (path_join src_files (listing ! i)) = Inr (sources ! i)"
  using append_sources_outcome[OF assms[unfolded sources_from_dir_def]] by auto

lemma sources_from_dir_aborted:
  assumes "sources_from_dir Source listing = (Some e, sources)"
  shows "length sources < length listing"
    and "Source (path_join src_files (listing ! length sources)) = Inl e"
    and "\<forall>i < length sources. Source (path_join src_files (listing ! i)) = Inr (sources ! i)"
  using append_sources_outcome[OF assms[unfolded sources_from_dir_def]] by auto

lemma sources_from_dir_length:
  "sources_from_dir Source listing = (raised, sources) \<Longrightarrow> length sources \<le> length listing"
  using append_sources_outcome[of Source "[]" listing raised sources]
  by (cases raised) (auto simp: sources_from_dir_def)

lemma append_sources_accepts_all:
  "\<forall>name \<in> set files. \<exists>s. Source (path_join src_files name) = Inr s \<Longrightarrow>
     fst (append_sources Source acc files) = None"
  by (induction files arbitrary: acc) auto

text \<open>
  C5, as stated, fails for a listing with a file that the factory rejects: the loop over
  \<open>a.html\<close> and \<open>notes.md\<close> ends with the exception of the factory, and \<open>sources\<close>
  holds one object for two files.
\<close>

theorem source_loader_aborts_on_rejected_file:
  "sources_from_dir html_only [''a.html'', ''notes.md'']
     = (Some (Exception ''Unsupported file format.''),
        [FileSource ''examples/ufc/data/fight/a.html''])
   \<and> length (snd (sources_from_dir html_only [''a.html'', ''notes.md'']))
       \<noteq> length [''a.html'', ''notes.md'']"
  by (simp add: sources_from_dir_def html_only_def path_join_def src_files_def)

text \<open>
  C5, amended: the URL comprehension builds exactly one source object per address, in the
  order of the addresses. The directory loop builds exactly one source object per file, in
  the order of the listing, whenever the factory accepts every path, and it then runs to
  the end. At the first path that the factory rejects the loop ends with the exception of
  the factory, and the list of sources holds the objects of the files before that one, one
  per file and in order.
\<close>

theorem source_loader_one_per_input:
  "length (sources_from_urls urls) = length urls
   \<and> (\<forall>i < length urls. sources_from_urls urls ! i = URL (urls ! i))
   \<and> (sources_from_dir Source listing = (None, sources) \<longrightarrow>
        length sources = length listing
        \<and> (\<forall>i < length listing.
              Source (path_join src_files (listing ! i)) = Inr (sources ! i)))
   \<and> (sources_from_dir Source listing = (Some e, sources) \<longrightarrow>
        length sources < length listing
        \<and> Source (path_join src_files (listing ! length sources)) = Inl e
        \<and> (\<forall>i < length sources.
              Source (path_join src_files (listing ! i)) = Inr (sources ! i)))
   \<and> ((\<forall>name \<in> set listing. \<exists>s. Source (path_join src_files name) = Inr s) \<longrightarrow>
        fst (sources_from_dir Source listing) = None)"
proof (intro conjI impI)
  show "length (sources_from_urls urls) = length urls"
    by (simp add: sources_from_urls_def)
  show "\<forall>i < length urls. sources_from_urls urls ! i = URL (urls ! i)"
    by (simp add: sources_from_urls_def)
  show "fst (sources_from_dir Source listing) = None"
    if "\<forall>name \<in> set listing. \<exists>s. Source (path_join src_files name) = Inr s"
    unfolding sources_from_dir_def using that by (rule append_sources_accepts_all)
next
  assume full: "sources_from_dir Source listing = (None, sources)"
  show "length sources = length listing" by (rule sources_from_dir_completed(1)[OF full])
  show "\<forall>i < length listing. Source (path_join src_files (listing ! i)) = Inr (sources ! i)"
    by (rule sources_from_dir_completed(2)[OF full])
next
  assume ab: "sources_from_dir Source listing = (Some e, sources)"
  show "length sources < length listing" by (rule sources_from_dir_aborted(1)[OF ab])
  show "Source (path_join src_files (listing ! length sources)) = Inl e"
    by (rule sources_from_dir_aborted(2)[OF ab])
  show "\<forall>i < length sources. Source (path_join src_files (listing ! i)) = Inr (sources ! i)"
    by (rule sources_from_dir_aborted(3)[OF ab])
qed

text \<open>
  Two URLs; a listing of two HTML files, where the loop runs to the end; and a listing
  whose second file is rejected.
\<close>

theorem source_loader_one_per_input_witness:
  "length (sources_from_urls [''https://www.rottentomatoes.com/m/matrix'',
                              ''https://www.rottentomatoes.com/m/speed_1994'']) = 2
   \<and> sources_from_urls [''https://www.rottentomatoes.com/m/matrix'',
                         ''https://www.rottentomatoes.com/m/speed_1994''] ! 1
       = URL ''https://www.rottentomatoes.com/m/speed_1994''
   \<and> sources_from_dir html_only [''a.html'', ''b.html'']
       = (None, [FileSource ''examples/ufc/data/fight/a.html'',
                 FileSource ''examples/ufc/data/fight/b.html''])
   \<and> html_only (path_join src_files ([''a.html'', ''b.html''] ! 1))
       = Inr ([FileSource ''examples/ufc/data/fight/a.html'',
               FileSource ''examples/ufc/data/fight/b.html''] ! 1)
   \<and> sources_from_dir html_only [''a.html'', ''notes.md'', ''c.html'']
       = (Some (Exception ''Unsupported file format.''),
          [FileSource ''examples/ufc/data/fight/a.html''])
   \<and> html_only (path_join src_files ([''a.html'', ''notes.md'', ''c.html''] ! 1))
       = Inl (Exception ''Unsupported file format.'')"
proof -
  have run: "sources_from_dir html_only [''a.html'', ''b.html'']
       = (None, [FileSource ''examples/ufc/data/fight/a.html'',
                 FileSource ''examples/ufc/data/fight/b.html''])"
    by (simp add: sources_from_dir_def html_only_def path_join_def src_files_def)
  have stop: "sources_from_dir html_only [''a.html'', ''notes.md'', ''c.html'']
       = (Some (Exception ''Unsupported file format.''),
          [FileSource ''examples/ufc/data/fight/a.html''])"
    by (simp add: sources_from_dir_def html_only_def path_join_def src_files_def)
  from source_loader_one_per_input
         [of "[''https://www.rottentomatoes.com/m/matrix'',
               ''https://www.rottentomatoes.com/m/speed_1994'']"
             html_only "[''a.html'', ''b.html'']"
             "[FileSource ''examples/ufc/data/fight/a.html'',
               FileSource ''examples/ufc/data/fight/b.html'']"]
       source_loader_one_per_input
         [of "[]" html_only "[''a.html'', ''notes.md'', ''c.html'']"
             "[FileSource ''examples/ufc/data/fight/a.html'']"
             "Exception ''Unsupported file format.''"]
  show ?thesis using run stop
    by (simp add: html_only_def path_join_def src_files_def sources_from_urls_def)
qed

section \<open>The size of the sample: results\<close>

lemmas float_eval =
  sample_size_def py_round_def float_mul_def int_to_float_def round_to_double_def
  percent_def round_half_even_def bit_length.simps

lemma bit_length_lower: "n \<noteq> 0 \<Longrightarrow> \<exists>b. bit_length n = Suc b \<and> 2 ^ b \<le> n"
proof (induction n rule: bit_length.induct)
  case (1 n)
  show ?case
  proof (cases "n div 2 = 0")
    case True
    then have "bit_length n = Suc 0" using "1.prems"
      by (simp add: bit_length.simps[of n] bit_length.simps[of 0])
    then show ?thesis using "1.prems" by simp
  next
    case False
    from "1.IH"[OF "1.prems" False] obtain b
      where b: "bit_length (n div 2) = Suc b" "2 ^ b \<le> n div 2" by blast
    have "bit_length n = Suc (Suc b)" using "1.prems" b(1)
      by (simp add: bit_length.simps[of n])
    moreover have "2 ^ Suc b \<le> n" using b(2) by simp
    ultimately show ?thesis by blast
  qed
qed

lemma round_half_even_bound: "2 * (round_half_even m k * 2 ^ k) \<le> 2 * m + 2 ^ k"
proof -
  define q where "q = m div 2 ^ k"
  define r where "r = m mod 2 ^ k"
  have m: "m = q * 2 ^ k + r" unfolding q_def r_def by (rule div_mult_mod_eq[symmetric])
  show ?thesis
  proof (cases "2 * r > 2 ^ k \<or> (2 * r = 2 ^ k \<and> odd q)")
    case True
    then have "round_half_even m k = q + 1"
      by (simp add: round_half_even_def q_def r_def Let_def)
    moreover have "2 ^ k \<le> 2 * r" using True by auto
    ultimately show ?thesis using m by (simp add: algebra_simps)
  next
    case False
    then have "round_half_even m k = q"
      by (simp add: round_half_even_def q_def r_def Let_def)
    then show ?thesis using m by (simp add: algebra_simps)
  qed
qed

lemma round_to_double_bound:
  "\<exists>d. expo (round_to_double m e) = e + int d \<and> mant (round_to_double m e) * 2 ^ d \<le> 2 * m"
proof (cases "bit_length m \<le> 53")
  case True
  then have "expo (round_to_double m e) = e + int 0"
    and "mant (round_to_double m e) * 2 ^ 0 \<le> 2 * m"
    by (simp_all add: round_to_double_def Let_def)
  then show ?thesis by blast
next
  case False
  define d where "d = bit_length m - 53"
  have "m \<noteq> 0"
  proof
    assume "m = 0"
    then have "bit_length m = 0" by (simp add: bit_length.simps)
    then show False using False by simp
  qed
  from bit_length_lower[OF this] obtain b where b: "bit_length m = Suc b" "2 ^ b \<le> m"
    by blast
  have db: "d \<le> b" using b(1) by (simp add: d_def)
  have "(2::nat) ^ d \<le> 2 ^ b" by (rule power_increasing[OF db]) simp
  then have dm: "2 ^ d \<le> m" by (rule order_trans) (rule b(2))
  have rd: "round_to_double m e = \<lparr>mant = round_half_even m d, expo = e + int d\<rparr>"
    using False by (simp add: round_to_double_def d_def Let_def)
  have "2 * (round_half_even m d * 2 ^ d) \<le> 2 * m + 2 ^ d"
    by (rule round_half_even_bound)
  then have "round_half_even m d * 2 ^ d \<le> 2 * m" using dm by simp
  then show ?thesis using rd by auto
qed


lemma sample_size_0: "sample_size 0 = 0"
  by (simp add: float_eval)

lemma sample_size_le: "sample_size n \<le> n"
proof (cases "n = 0")
  case True
  then show ?thesis by (simp add: sample_size_0)
next
  case False
  then have n1: "1 \<le> n" by simp
  define x where "x = int_to_float n"
  define y where "y = float_mul x percent"
  obtain d1 where d1: "expo x = int d1" "mant x * 2 ^ d1 \<le> 2 * n"
    using round_to_double_bound[of n 0] by (auto simp: x_def int_to_float_def)
  obtain d2 where d2: "expo y = int d1 - 56 + int d2"
      "mant y * 2 ^ d2 \<le> 2 * (mant x * 7205759403792794)"
    using round_to_double_bound[of "mant x * mant percent" "expo x + expo percent"] d1(1)
    by (auto simp: y_def float_mul_def percent_def)
  have "mant y * 2 ^ (d1 + d2) = (mant y * 2 ^ d2) * 2 ^ d1"
    by (simp add: power_add)
  also have "\<dots> \<le> (2 * (mant x * 7205759403792794)) * 2 ^ d1"
    by (rule mult_le_mono1) (rule d2(2))
  also have "\<dots> = 14411518807585588 * (mant x * 2 ^ d1)" by simp
  also have "\<dots> \<le> 14411518807585588 * (2 * n)"
    by (rule mult_le_mono2) (rule d1(2))
  finally have scaled: "mant y * 2 ^ (d1 + d2) \<le> 28823037615171176 * n" by simp
  have "py_round y \<le> n"
  proof (cases "0 \<le> expo y")
    case True
    then have ge: "56 \<le> d1 + d2" using d2(1) by simp
    have "nat (expo y) + 56 = d1 + d2" using d2(1) True by simp
    then have "py_round y * 2 ^ 56 = mant y * 2 ^ (d1 + d2)"
      using True by (simp add: py_round_def power_add[symmetric] del: power_numeral)
    then have "py_round y * 2 ^ 56 \<le> 28823037615171176 * n" using scaled by simp
    then show ?thesis by simp
  next
    case False
    define k where "k = nat (- expo y)"
    have kd: "k + (d1 + d2) = 56" using d2(1) False by (simp add: k_def)
    have pr: "py_round y = round_half_even (mant y) k"
      using False by (simp add: py_round_def k_def)
    have "2 * (py_round y * 2 ^ k) \<le> 2 * mant y + 2 ^ k"
      unfolding pr by (rule round_half_even_bound)
    then have "(2 * (py_round y * 2 ^ k)) * 2 ^ (d1 + d2)
                 \<le> (2 * mant y + 2 ^ k) * 2 ^ (d1 + d2)"
      by (rule mult_le_mono1)
    moreover have "(2 * (py_round y * 2 ^ k)) * 2 ^ (d1 + d2) = 2 * py_round y * 2 ^ 56"
      using kd by (simp add: power_add[symmetric] del: power_numeral)
    moreover have "(2 * mant y + 2 ^ k) * 2 ^ (d1 + d2)
                     = 2 * (mant y * 2 ^ (d1 + d2)) + 2 ^ 56"
      using kd by (simp add: power_add[symmetric] add_mult_distrib del: power_numeral)
    ultimately have "2 * py_round y * 2 ^ 56 \<le> 2 * (mant y * 2 ^ (d1 + d2)) + 2 ^ 56"
      by simp
    then have "2 * py_round y * 2 ^ 56 \<le> 2 * (28823037615171176 * n) + 2 ^ 56"
      using scaled by linarith
    then show ?thesis using n1 by simp
  qed
  then show ?thesis by (simp add: sample_size_def y_def x_def)
qed

text \<open>
  Below \<open>2 ^ 52\<close> sources the double arithmetic agrees with the exact reading.
\<close>

lemma bit_length_upper: "n < 2 ^ bit_length n"
proof (induction n rule: bit_length.induct)
  case (1 n)
  show ?case
  proof (cases "n = 0")
    case True
    then show ?thesis by simp
  next
    case False
    then have "n div 2 < 2 ^ bit_length (n div 2)" by (rule "1.IH")
    moreover have "bit_length n = Suc (bit_length (n div 2))"
      using False by (simp add: bit_length.simps[of n])
    ultimately show ?thesis by simp
  qed
qed

lemma divmod_unique:
  fixes q c r :: nat
  assumes "r < c"
  shows "(q * c + r) div c = q" and "(q * c + r) mod c = r"
  using assms by simp_all

lemma round_half_even_near:
  assumes up: "2 * a < (2 * R + 1) * 2 ^ k"
    and lo: "2 * R * 2 ^ k < 2 * a + 2 ^ k"
  shows "round_half_even a k = R"
proof -
  define c :: nat where "c = 2 ^ k"
  define q where "q = a div c"
  define r where "r = a mod c"
  have cpos: "0 < c" by (simp add: c_def)
  have a: "a = q * c + r" unfolding q_def r_def by (rule div_mult_mod_eq[symmetric])
  have rc: "r < c" unfolding r_def using cpos by simp
  have "(2 * q) * c \<le> 2 * a" using a by simp
  also have "\<dots> < (2 * R + 1) * c" using up by (simp add: c_def)
  finally have h1: "(2 * q) * c < (2 * R + 1) * c" .
  have "2 * q < 2 * R + 1" using h1 unfolding mult_less_cancel2 by blast
  then have qR: "q \<le> R" by simp
  have "(2 * R) * c < 2 * a + c" using lo by (simp add: c_def)
  also have "\<dots> < (2 * q + 3) * c" using a rc by (simp add: algebra_simps)
  finally have h2: "(2 * R) * c < (2 * q + 3) * c" .
  have "2 * R < 2 * q + 3" using h2 unfolding mult_less_cancel2 by blast
  then have Rq: "R \<le> q + 1" by simp
  have rhe: "round_half_even a k
               = (if 2 * r > c \<or> (2 * r = c \<and> odd q) then q + 1 else q)"
    by (simp add: round_half_even_def Let_def q_def r_def c_def)
  show ?thesis
  proof (cases "q = R")
    case True
    have "2 * r + 2 * R * c < c + 2 * R * c" using up a True by (simp add: c_def algebra_simps)
    then have "2 * r < c" by simp
    then show ?thesis using rhe True by simp
  next
    case False
    then have R: "R = q + 1" using qR Rq by simp
    have "2 * q * c + 2 * c < 2 * q * c + 2 * r + c"
      using lo a R by (simp add: c_def algebra_simps)
    then have "c < 2 * r" by simp
    then show ?thesis using rhe R by simp
  qed
qed

lemma round_half_even_tie:
  assumes "a = (2 * q + 1) * 2 ^ j"
  shows "round_half_even a (Suc j) = (if odd q then q + 1 else q)"
proof -
  have a: "a = q * 2 ^ Suc j + 2 ^ j" using assms by (simp add: algebra_simps)
  have lt: "(2::nat) ^ j < 2 ^ Suc j" by simp
  have d: "a div 2 ^ Suc j = q" unfolding a by (rule divmod_unique(1)[OF lt])
  have m: "a mod 2 ^ Suc j = 2 ^ j" unfolding a by (rule divmod_unique(2)[OF lt])
  show ?thesis
    unfolding round_half_even_def d m by (simp add: Let_def)
qed


lemma round_half_even_lower: "2 * m \<le> 2 * (round_half_even m k * 2 ^ k) + 2 ^ k"
proof -
  define q where "q = m div 2 ^ k"
  define r where "r = m mod 2 ^ k"
  have m: "m = q * 2 ^ k + r" unfolding q_def r_def by (rule div_mult_mod_eq[symmetric])
  have r: "r < 2 ^ k" unfolding r_def by simp
  show ?thesis
  proof (cases "2 * r > 2 ^ k \<or> (2 * r = 2 ^ k \<and> odd q)")
    case True
    then have "round_half_even m k = q + 1"
      by (simp add: round_half_even_def q_def r_def Let_def)
    then show ?thesis using m r by (simp add: algebra_simps)
  next
    case False
    then have "round_half_even m k = q"
      by (simp add: round_half_even_def q_def r_def Let_def)
    moreover have "2 * r \<le> 2 ^ k" using False by auto
    ultimately show ?thesis using m by (simp add: algebra_simps)
  qed
qed

lemma bit_length_le: "n < 2 ^ j \<Longrightarrow> bit_length n \<le> j"
proof (cases "n = 0")
  case True
  then show ?thesis by (simp add: bit_length.simps)
next
  case False
  assume nj: "n < 2 ^ j"
  from bit_length_lower[OF False] obtain b where b: "bit_length n = Suc b" "2 ^ b \<le> n"
    by blast
  have "(2::nat) ^ b < 2 ^ j" using b(2) nj by (rule le_less_trans)
  then have "b < j" by simp
  then show ?thesis using b(1) by simp
qed

lemma bit_length_gt: "2 ^ j \<le> n \<Longrightarrow> j < bit_length n"
proof -
  assume "2 ^ j \<le> n"
  then have "(2::nat) ^ j < 2 ^ bit_length n" using bit_length_upper by (rule le_less_trans)
  then show ?thesis by simp
qed

text \<open>The shape of the product and of its rounding, for two sources or more.\<close>

lemma product_shape:
  assumes n2: "2 \<le> n" and n52: "n < 2 ^ 52"
  obtains d where "1 \<le> d" and "d \<le> 52"
    and "float_mul (int_to_float n) percent
           = \<lparr>mant = round_half_even (n * 7205759403792794) d, expo = - 56 + int d\<rparr>"
    and "n * 7205759403792794 < 2 ^ d * 2 ^ 53"
proof -
  define P where "P = n * 7205759403792794"
  define d where "d = bit_length P - 53"
  have "n < 2 ^ 53" using n52 by simp
  then have "bit_length n \<le> 53" by (rule bit_length_le)
  then have itf: "int_to_float n = \<lparr>mant = n, expo = 0\<rparr>"
    by (simp add: int_to_float_def round_to_double_def Let_def)
  have "2 ^ 53 \<le> P" using n2 by (simp add: P_def)
  then have b53: "53 < bit_length P" by (rule bit_length_gt)
  have "P < 2 ^ 105" using n52 by (simp add: P_def)
  then have b105: "bit_length P \<le> 105" by (rule bit_length_le)
  have d1: "1 \<le> d" and d52: "d \<le> 52" using b53 b105 by (simp_all add: d_def)
  have bl: "bit_length P = d + 53" using b53 by (simp add: d_def)
  have fm: "float_mul (int_to_float n) percent
              = \<lparr>mant = round_half_even P d, expo = - 56 + int d\<rparr>"
    using b53 by (simp add: float_mul_def itf percent_def round_to_double_def Let_def
                    P_def[symmetric] d_def[symmetric])
  have "P < 2 ^ bit_length P" by (rule bit_length_upper)
  then have "P < 2 ^ d * 2 ^ 53" by (simp only: bl power_add)
  then show ?thesis using d1 d52 fm that by (simp add: P_def)
qed


lemma near_upper_arith:
  fixes M D P n R :: nat
  assumes "2 * (M * D) \<le> 2 * P + D" "10 * P = 72057594037927936 * n + 4 * n"
   "n \<le> 10 * R + 4" "D \<le> 4503599627370496" "n < 4503599627370496"
  shows "2 * (M * D) < (2 * R + 1) * 72057594037927936"
proof -
  define X where "X = M * D"
  have "10 * (2 * X) \<le> 10 * (2 * P + D)" using assms(1) unfolding X_def by simp
  also have "\<dots> = 144115188075855872 * n + 8 * n + 10 * D" using assms(2) by simp
  also have "\<dots> < 144115188075855872 * n + 144115188075855872" using assms(4,5) by simp
  also have "\<dots> \<le> 10 * ((2 * R + 1) * 72057594037927936)" using assms(3) by simp
  finally show ?thesis unfolding X_def by simp
qed

lemma near_lower_arith:
  fixes M D P n R :: nat
  assumes "2 * P \<le> 2 * (M * D) + D" "10 * P = 72057594037927936 * n + 4 * n"
   "10 * R \<le> n + 4" "D \<le> 4503599627370496"
  shows "2 * R * 72057594037927936 < 2 * (M * D) + 72057594037927936"
proof -
  define X where "X = M * D"
  have "10 * (2 * R * 72057594037927936) + 10 * D
          \<le> 144115188075855872 * n + 576460752303423488 + 10 * D"
    using assms(3) by simp
  also have "\<dots> < 144115188075855872 * n + 8 * n + 720575940379279360"
    using assms(4) by simp
  also have "\<dots> = 10 * (2 * P) + 720575940379279360" using assms(2) by simp
  also have "\<dots> \<le> 10 * (2 * X + D) + 720575940379279360"
    using assms(1) unfolding X_def by simp
  finally show ?thesis unfolding X_def by simp
qed

lemma tie_arith:
  fixes P D q J :: nat
  assumes P: "P = (2 * q + 1) * 36028797018963968 + (4 * q + 2)"
    and "P < D * 9007199254740992" and JD: "J * D = 36028797018963968" and "0 < D"
  shows "8 * q + 4 < D"
    and "2 * P < (2 * ((2 * q + 1) * J) + 1) * D"
    and "2 * ((2 * q + 1) * J) * D < 2 * P + D"
proof -
  have "(8 * q + 4) * 9007199254740992 \<le> P" unfolding P by simp
  also have "\<dots> < D * 9007199254740992" by (rule assms(2))
  finally have "(8 * q + 4) * 9007199254740992 < D * 9007199254740992" .
  then show small: "8 * q + 4 < D" unfolding mult_less_cancel2 by blast
  define Y where "Y = (2 * q + 1) * J"
  have "Y * D = (2 * q + 1) * (J * D)" by (simp only: Y_def mult.assoc)
  then have YD: "Y * D = (2 * q + 1) * 36028797018963968" by (simp only: JD)
  have "2 * P < 2 * (Y * D) + D" unfolding YD using small by (simp add: P)
  also have "\<dots> = (2 * Y + 1) * D" by (simp add: algebra_simps)
  finally show "2 * P < (2 * ((2 * q + 1) * J) + 1) * D" unfolding Y_def .
  have "2 * Y * D = 2 * (Y * D)" by simp
  also have "\<dots> < 2 * P + D" unfolding YD using assms(4) by (simp add: P)
  finally show "2 * ((2 * q + 1) * J) * D < 2 * P + D" unfolding Y_def .
qed
lemma round_tenth_near:
  assumes "n mod 10 \<noteq> 5"
  shows "n \<le> 10 * round_tenth n + 4" and "10 * round_tenth n \<le> n + 4"
proof -
  define q where "q = n div 10"
  define r where "r = n mod 10"
  have n: "n = 10 * q + r" unfolding q_def r_def by simp
  have r: "r < 10" "r \<noteq> 5" using assms by (simp_all add: r_def)
  have rt: "round_tenth n = (if r > 5 then q + 1 else q)"
    using r(2) by (simp add: round_tenth_def Let_def q_def r_def)
  show "n \<le> 10 * round_tenth n + 4" using n r rt by auto
  show "10 * round_tenth n \<le> n + 4" using n r rt by auto
qed

lemma sample_size_round_tenth:
  assumes n52: "n < 2 ^ 52"
  shows "sample_size n = round_tenth n"
proof -
  consider "n = 0" | "n = 1" | "2 \<le> n" by linarith
  then show ?thesis
  proof cases
    case 1
    then show ?thesis by (simp add: sample_size_0 round_tenth_def)
  next
    case 2
    then show ?thesis by (simp add: float_eval round_tenth_def)
  next
    case 3
    define P where "P = n * 7205759403792794"
    from product_shape[OF 3 n52] obtain d where d1: "1 \<le> d" and d52: "d \<le> 52"
      and fm: "float_mul (int_to_float n) percent
                 = \<lparr>mant = round_half_even P d, expo = - 56 + int d\<rparr>"
      and Pup: "P < 2 ^ d * 2 ^ 53"
      unfolding P_def by blast
    define M where "M = round_half_even P d"
    define k where "k = 56 - d"
    define D :: nat where "D = 2 ^ d"
    define K :: nat where "K = 2 ^ k"
    have dk: "k + d = 56" using d52 by (simp add: k_def)
    have "K * D = 2 ^ (k + d)" by (simp add: K_def D_def power_add)
    then have KD: "K * D = 72057594037927936" by (simp add: dk)
    have Dpos: "0 < D" by (simp add: D_def)
    have "D \<le> 2 ^ 52" unfolding D_def by (rule power_increasing[OF d52]) simp
    then have D52: "D \<le> 4503599627370496" by simp
    have nk: "nat (56 - int d) = 56 - d" using d52 by linarith
    have ss: "sample_size n = round_half_even M k"
      using d52 by (simp add: sample_size_def fm py_round_def M_def k_def nk)
    have MD_up: "2 * (M * D) \<le> 2 * P + D"
      unfolding M_def D_def by (rule round_half_even_bound)
    have MD_lo: "2 * P \<le> 2 * (M * D) + D"
      unfolding M_def D_def by (rule round_half_even_lower)
    have P10: "10 * P = 72057594037927936 * n + 4 * n" by (simp add: P_def)
    have nb: "n < 4503599627370496" using n52 by simp
    show ?thesis
    proof (cases "n mod 10 = 5")
      case False
      define R where "R = round_tenth n"
      have R1: "n \<le> 10 * R + 4" and R2: "10 * R \<le> n + 4"
        unfolding R_def by (rule round_tenth_near[OF False])+
      have u: "2 * (M * D) < (2 * R + 1) * 72057594037927936"
        using MD_up P10 R1 D52 nb by (rule near_upper_arith)
      have "(2 * M) * D = 2 * (M * D)" by simp
      also note u
      also have "(2 * R + 1) * 72057594037927936 = ((2 * R + 1) * K) * D"
        by (simp only: mult.assoc KD)
      finally have "(2 * M) * D < ((2 * R + 1) * K) * D" .
      then have up: "2 * M < (2 * R + 1) * 2 ^ k"
        unfolding mult_less_cancel2 K_def by blast
      have l: "2 * R * 72057594037927936 < 2 * (M * D) + 72057594037927936"
        using MD_lo P10 R2 D52 by (rule near_lower_arith)
      have "(2 * R * K) * D = 2 * R * (K * D)" by (simp only: mult.assoc)
      also have "\<dots> = 2 * R * 72057594037927936" by (simp only: KD)
      also note l
      also have "2 * (M * D) + 72057594037927936 = (2 * M + K) * D"
        by (simp add: add_mult_distrib KD)
      finally have "(2 * R * K) * D < (2 * M + K) * D" .
      then have lo: "2 * R * 2 ^ k < 2 * M + 2 ^ k"
        unfolding mult_less_cancel2 K_def by blast
      have "round_half_even M k = R" using up lo by (rule round_half_even_near)
      then show ?thesis by (simp add: ss R_def)
    next
      case True
      define q where "q = n div 10"
      have n: "n = 10 * q + 5" using True unfolding q_def by presburger
      have P: "P = (2 * q + 1) * 36028797018963968 + (4 * q + 2)"
        by (simp add: P_def n algebra_simps)
      define j where "j = 55 - d"
      define J :: nat where "J = 2 ^ j"
      have jd: "j + d = 55" using d52 by (simp add: j_def)
      have "J * D = 2 ^ (j + d)" by (simp add: J_def D_def power_add)
      then have JD: "J * D = 36028797018963968" by (simp add: jd)
      have kj: "k = Suc j" using d52 by (simp add: k_def j_def)
      have PD: "P < D * 9007199254740992" using Pup by (simp add: D_def)
      have up: "2 * P < (2 * ((2 * q + 1) * J) + 1) * 2 ^ d"
        using tie_arith(2)[OF P PD JD Dpos] by (simp only: D_def)
      have lo: "2 * ((2 * q + 1) * J) * 2 ^ d < 2 * P + 2 ^ d"
        using tie_arith(3)[OF P PD JD Dpos] by (simp only: D_def)
      have "M = (2 * q + 1) * J"
        unfolding M_def using up lo by (rule round_half_even_near)
      then have "M = (2 * q + 1) * 2 ^ j" by (simp add: J_def)
      then have "round_half_even M (Suc j) = (if odd q then q + 1 else q)"
        by (rule round_half_even_tie)
      moreover have "round_tenth n = (if odd q then q + 1 else q)"
        by (simp add: round_tenth_def Let_def n)
      ultimately show ?thesis by (simp add: ss kj)
    qed
  qed
qed

section \<open>Sampling without replacement: results\<close>

lemma swap_remove_mset:
  assumes "length ps = Suc m" "j \<le> m"
  shows "add_mset (ps ! j) (mset (take m (ps[j := ps ! m]))) = mset ps"
proof -
  have tk: "take (Suc m) ps = ps" using assms(1) by simp
  have split: "take (Suc m) ps = take m ps @ [ps ! m]"
    by (rule take_Suc_conv_app_nth) (simp add: assms(1))
  have "mset ps = mset (take (Suc m) ps)" by (simp only: tk)
  also have "\<dots> = mset (take m ps @ [ps ! m])"
    by (simp only: split)
  also have "\<dots> = add_mset (ps ! m) (mset (take m ps))" by simp
  finally have full: "mset ps = add_mset (ps ! m) (mset (take m ps))" .
  show ?thesis
  proof (cases "j = m")
    case True
    then show ?thesis using full by simp
  next
    case False
    then have jm: "j < m" using assms(2) by simp
    then have jl: "j < length (take m ps)" using assms(1) by simp
    have "take m (ps[j := ps ! m]) = (take m ps)[j := ps ! m]"
      by (simp add: take_update_swap)
    then have upd: "mset (take m (ps[j := ps ! m]))
                 = add_mset (ps ! m) (mset (take m ps) - {#(take m ps) ! j#})"
      using jl by (simp add: mset_update)
    have nthj: "(take m ps) ! j = ps ! j" using jm by simp
    have "(take m ps) ! j \<in> set (take m ps)" using jl by (rule nth_mem)
    then have mem: "ps ! j \<in># mset (take m ps)" using nthj by simp
    show ?thesis using upd nthj mem full by simp
  qed
qed


lemma pool_loop_invariant:
  assumes "pool_loop n k i tape pool result = Some res"
    and "k \<le> n" and "i \<le> k" and "length pool = n"
    and "length ps = n - i" and "take (n - i) pool = map ((!) population) ps"
    and "length chosen = i"
    and "result = map (\<lambda>j. Some (population ! j)) chosen @ replicate (k - i) None"
    and "mset (ps @ chosen) = M"
  shows "\<exists>chosen' ps'. res = map (\<lambda>j. Some (population ! j)) chosen'
           \<and> length chosen' = k \<and> mset (ps' @ chosen') = M"
  using assms
proof (induction n k i tape pool result arbitrary: ps chosen rule: pool_loop.induct)
  case (1 n k i tape pool result)
  show ?case
  proof (cases "i < k")
    case False
    then have "i = k" using "1.prems"(3) by simp
    moreover have "res = result"
      using "1.prems"(1) False by (simp add: pool_loop.simps)
    ultimately show ?thesis using "1.prems"(7,8,9) by auto
  next
    case True
    then obtain t tape' where tape: "tape = t # tape'"
      using "1.prems"(1) by (cases tape) (simp_all add: pool_loop.simps)
    define m where "m = n - i - 1"
    define j where "j = t mod (n - i)"
    have ni: "n - i = Suc m" using True "1.prems"(2) by (simp add: m_def)
    have m1: "n - (i + 1) = m" "n - i - 1 = m" "n - Suc i = m" by (simp_all add: m_def)
    have jm: "j \<le> m" using ni by (simp add: j_def less_Suc_eq_le[symmetric])
    define ps' where "ps' = take m (ps[j := ps ! m])"
    define chosen' where "chosen' = chosen @ [ps ! j]"
    have lps: "length ps = Suc m" using "1.prems"(5) ni by simp
    have tk: "take (Suc m) pool = map ((!) population) ps"
      using "1.prems"(6) ni by simp
    have nth_pool: "pool ! a = population ! (ps ! a)" if "a \<le> m" for a
    proof -
      have "pool ! a = take (Suc m) pool ! a" using that by simp
      also have "\<dots> = map ((!) population) ps ! a" by (simp only: tk)
      also have "\<dots> = population ! (ps ! a)" using that lps by simp
      finally show ?thesis .
    qed
    have "take m pool = take m (take (Suc m) pool)" by simp
    also have "\<dots> = map ((!) population) (take m ps)"
      by (simp only: tk take_map)
    finally have tkm: "take m pool = map ((!) population) (take m ps)" .
    have step: "pool_loop n k (i + 1) tape' (pool[j := pool ! (n - i - 1)])
                  (result[i := Some (pool ! j)]) = Some res"
      using "1.prems"(1) True tape by (simp add: pool_loop.simps[of n k i] j_def Let_def)
    have d: "take (n - (i + 1)) (pool[j := pool ! (n - i - 1)]) = map ((!) population) ps'"
    proof -
      have "take m (pool[j := pool ! m]) = (take m pool)[j := pool ! m]"
        by (simp add: take_update_swap)
      also have "\<dots> = (map ((!) population) (take m ps))[j := population ! (ps ! m)]"
        by (simp add: tkm nth_pool)
      also have "\<dots> = map ((!) population) ((take m ps)[j := ps ! m])"
        by (simp add: map_update)
      also have "\<dots> = map ((!) population) ps'"
        by (simp add: ps'_def take_update_swap)
      finally show ?thesis by (simp only: m1)
    qed
    define r where "r = k - (i + 1)"
    have ki: "k - i = Suc r" using True by (simp add: r_def)
    have "result[i := Some (pool ! j)]
               = map (\<lambda>j. Some (population ! j)) chosen' @ replicate r None"
      using "1.prems"(7)
      by (simp add: "1.prems"(8) ki list_update_append chosen'_def nth_pool[OF jm])
    then have f: "result[i := Some (pool ! j)]
               = map (\<lambda>j. Some (population ! j)) chosen' @ replicate (k - (i + 1)) None"
      by (simp only: r_def)
    have "mset (ps' @ chosen') = add_mset (ps ! j) (mset ps') + mset chosen"
      by (simp add: chosen'_def)
    also have "\<dots> = mset ps + mset chosen"
      by (simp only: ps'_def swap_remove_mset[OF lps jm])
    finally have g: "mset (ps' @ chosen') = M"
      using "1.prems"(9) by simp
    show ?thesis
      by (rule "1.IH"[OF True tape j_def step "1.prems"(2) _ _ _ d _ f g])
         (use True "1.prems"(4) lps in \<open>simp_all add: ps'_def chosen'_def "1.prems"(7) m1\<close>)
  qed
qed


lemma pool_loop_chooses_distinct:
  assumes "pool_loop (length population) k 0 tape population (replicate k None) = Some res"
    and "k \<le> length population"
  shows "\<exists>chosen. res = map (\<lambda>j. Some (population ! j)) chosen \<and> length chosen = k
           \<and> distinct chosen \<and> set chosen \<subseteq> {..<length population}"
proof -
  have "take (length population - 0) population = map ((!) population) [0..<length population]"
    by (simp add: map_nth)
  from pool_loop_invariant[OF assms(1) assms(2) _ _ _ this, of "[]" "mset [0..<length population]"]
  obtain chosen ps where res: "res = map (\<lambda>j. Some (population ! j)) chosen"
    and len: "length chosen = k"
    and ms: "mset (ps @ chosen) = mset [0..<length population]"
    by auto
  have "distinct (ps @ chosen)"
    using mset_eq_imp_distinct_iff[OF ms] by simp
  moreover have "set (ps @ chosen) = set [0..<length population]"
    using mset_eq_setD[OF ms] .
  ultimately have "distinct chosen" "set chosen \<subseteq> {..<length population}"
    by auto
  then show ?thesis using res len by blast
qed

lemma pool_loop_returns:
  "k - i \<le> length tape \<Longrightarrow> \<exists>res. pool_loop n k i tape pool result = Some res"
proof (induction n k i tape pool result rule: pool_loop.induct)
  case (1 n k i tape pool result)
  show ?case
  proof (cases "i < k")
    case False
    then show ?thesis by (simp add: pool_loop.simps)
  next
    case True
    then obtain t tape' where tape: "tape = t # tape'"
      using "1.prems" by (cases tape) simp_all
    have "k - (i + 1) \<le> length tape'" using "1.prems" tape by simp
    from "1.IH"[OF True tape refl this] show ?thesis
      using True tape by (simp add: pool_loop.simps[of n k i] Let_def)
  qed
qed

lemma fresh_index_Some:
  "fresh_index n selected tape = Some (j, tape') \<Longrightarrow>
     j \<notin> selected \<and> (\<exists>t. j = t mod n)
     \<and> (\<lambda>t. t mod n) ` set tape - insert j selected \<subseteq> (\<lambda>t. t mod n) ` set tape'"
  by (induction tape) (auto simp: Let_def split: if_splits)

lemma fresh_index_returns:
  "(\<lambda>t. t mod n) ` set tape - selected \<noteq> {} \<Longrightarrow>
     \<exists>j tape'. fresh_index n selected tape = Some (j, tape')"
  by (induction tape) (auto simp: Let_def)

lemma set_loop_invariant:
  assumes "set_loop n k i tape population selected result = Some res"
    and "0 < n" and "i \<le> k"
    and "selected = set chosen" and "distinct chosen" and "set chosen \<subseteq> {..<n}"
    and "length chosen = i"
    and "result = map (\<lambda>j. Some (population ! j)) chosen @ replicate (k - i) None"
  shows "\<exists>chosen'. res = map (\<lambda>j. Some (population ! j)) chosen' \<and> length chosen' = k
           \<and> distinct chosen' \<and> set chosen' \<subseteq> {..<n}"
  using assms
proof (induction n k i tape population selected result arbitrary: chosen rule: set_loop.induct)
  case (1 n k i tape population selected result)
  show ?case
  proof (cases "i < k")
    case False
    then have "i = k" using "1.prems"(3) by simp
    moreover have "res = result"
      using "1.prems"(1) False by (simp add: set_loop.simps)
    ultimately show ?thesis using "1.prems"(5,6,7,8) by auto
  next
    case True
    then obtain j tape' where fr: "fresh_index n selected tape = Some (j, tape')"
      using "1.prems"(1) by (cases "fresh_index n selected tape") (auto simp: set_loop.simps)
    have step: "set_loop n k (i + 1) tape' population (insert j selected)
                  (result[i := Some (population ! j)]) = Some res"
      using "1.prems"(1) True fr by (simp add: set_loop.simps[of n k i])
    from fresh_index_Some[OF fr] have jn: "j \<notin> selected" and jlt: "j < n"
      using "1.prems"(2) by auto
    define chosen' where "chosen' = chosen @ [j]"
    define r where "r = k - (i + 1)"
    have ki: "k - i = Suc r" using True by (simp add: r_def)
    have "result[i := Some (population ! j)]
            = map (\<lambda>j. Some (population ! j)) chosen' @ replicate r None"
      using "1.prems"(7) by (simp add: "1.prems"(8) ki list_update_append chosen'_def)
    then have f: "result[i := Some (population ! j)]
            = map (\<lambda>j. Some (population ! j)) chosen' @ replicate (k - (i + 1)) None"
      by (simp only: r_def)
    show ?thesis
      by (rule "1.IH"[OF True fr refl step "1.prems"(2) _ _ _ _ _ f])
         (use True jn jlt "1.prems"(4,5,6,7) in \<open>auto simp: chosen'_def\<close>)
  qed
qed

lemma set_loop_returns:
  "k - i \<le> card ((\<lambda>t. t mod n) ` set tape - selected) \<Longrightarrow>
     \<exists>res. set_loop n k i tape population selected result = Some res"
proof (induction n k i tape population selected result rule: set_loop.induct)
  case (1 n k i tape population selected result)
  show ?case
  proof (cases "i < k")
    case False
    then show ?thesis by (simp add: set_loop.simps)
  next
    case True
    let ?R = "\<lambda>tp. (\<lambda>t. t mod n) ` set tp"
    have "0 < card (?R tape - selected)" using True "1.prems" by simp
    then have "?R tape - selected \<noteq> {}" by (simp add: card_gt_0_iff)
    from fresh_index_returns[OF this]
    obtain j tape' where fr: "fresh_index n selected tape = Some (j, tape')" by blast
    from fresh_index_Some[OF fr]
    have sub: "?R tape - insert j selected \<subseteq> ?R tape' - insert j selected" by blast
    have "?R tape - insert j selected = (?R tape - selected) - {j}" by blast
    then have "card (?R tape - selected) - 1 \<le> card (?R tape - insert j selected)"
      by (simp add: card_Diff_singleton_if)
    also have "\<dots> \<le> card (?R tape' - insert j selected)"
      by (rule card_mono[OF _ sub]) simp
    finally have "k - (i + 1) \<le> card (?R tape' - insert j selected)"
      using "1.prems" by simp
    from "1.IH"[OF True fr refl this] show ?thesis
      using True fr by (simp add: set_loop.simps[of n k i])
  qed
qed

lemma percent_is_nearest_double:
  "bit_length (mant percent) = 53 \<and> expo percent = - 56
   \<and> 2 * \<bar>10 * int (mant percent) - 2 ^ 56\<bar> < 10"
  by (simp add: percent_def bit_length.simps)

lemma small_products:
  "float_mul (int_to_float 1) percent = \<lparr>mant = 7205759403792794, expo = - 56\<rparr>"
  "float_mul (int_to_float 2) percent = \<lparr>mant = 7205759403792794, expo = - 55\<rparr>"
  "float_mul (int_to_float 3) percent = \<lparr>mant = 5404319552844596, expo = - 54\<rparr>"
  "float_mul (int_to_float 4) percent = \<lparr>mant = 7205759403792794, expo = - 54\<rparr>"
  "float_mul (int_to_float 5) percent = \<lparr>mant = 4503599627370496, expo = - 53\<rparr>"
  by (simp_all add: float_eval)

lemma sample_size_small:
  "sample_size 1 = 0" "sample_size 2 = 0" "sample_size 3 = 0" "sample_size 4 = 0"
  "sample_size 5 = 0"
  by (simp_all add: float_eval)

lemma sample_size_examples:
  "sample_size 6 = 1" "sample_size 10 = 1" "sample_size 15 = 2" "sample_size 25 = 2"
  "sample_size 100 = 10"
  by (simp_all add: float_eval)

lemma random_sample_empty: "random_sample ceil_log4 tape population 0 = Some (Inr [])"
  by (simp add: random_sample_def Let_def pool_loop.simps set_loop.simps)

lemma chosen_positions:
  assumes "distinct chosen" and "set chosen \<subseteq> {..<length xs}"
  shows "set (map (\<lambda>j. Some (xs ! j)) chosen) \<subseteq> Some ` set xs"
    and "distinct xs \<Longrightarrow> distinct (map (\<lambda>j. Some (xs ! j)) chosen)"
proof -
  show "set (map (\<lambda>j. Some (xs ! j)) chosen) \<subseteq> Some ` set xs"
    using assms(2) by auto
  assume dx: "distinct xs"
  have "inj_on (\<lambda>j. Some (xs ! j)) (set chosen)"
  proof (rule inj_onI)
    fix a b
    assume "a \<in> set chosen" and "b \<in> set chosen" and eq: "Some (xs ! a) = Some (xs ! b)"
    then have "a < length xs" and "b < length xs" using assms(2) by auto
    then show "a = b" using eq by (simp add: nth_eq_iff_index_eq[OF dx])
  qed
  then show "distinct (map (\<lambda>j. Some (xs ! j)) chosen)"
    using assms(1) by (simp add: distinct_map)
qed

lemma random_sample_result:
  assumes "random_sample ceil_log4 tape population k = Some (Inr res)"
  shows "\<exists>chosen. res = map (\<lambda>j. Some (population ! j)) chosen \<and> length chosen = k
           \<and> distinct chosen \<and> set chosen \<subseteq> {..<length population}"
proof -
  have kn: "k \<le> length population"
    using assms by (auto simp: random_sample_def Let_def split: if_splits)
  define setsize :: nat where "setsize = (if k > 5 then 21 + 4 ^ ceil_log4 (k * 3) else 21)"
  show ?thesis
  proof (cases "length population \<le> setsize")
    case True
    then have "pool_loop (length population) k 0 tape population (replicate k None) = Some res"
      using assms kn by (auto simp: random_sample_def Let_def setsize_def split: if_splits)
    then show ?thesis using kn by (rule pool_loop_chooses_distinct)
  next
    case False
    have "21 \<le> setsize" by (simp add: setsize_def)
    then have pos: "0 < length population" using False by linarith
    have "set_loop (length population) k 0 tape population {} (replicate k None) = Some res"
      using assms kn False by (auto simp: random_sample_def Let_def setsize_def split: if_splits)
    then show ?thesis
      by (rule set_loop_invariant[OF _ pos, of _ _ _ _ _ _ _ "[]"]) simp_all
  qed
qed

lemma random_sample_returns:
  assumes "k \<le> length population"
    and "k \<le> card ((\<lambda>t. t mod length population) ` set tape)"
  shows "\<exists>res. random_sample ceil_log4 tape population k = Some (Inr res)"
proof -
  have "card ((\<lambda>t. t mod length population) ` set tape) \<le> length tape"
    by (rule order_trans[OF card_image_le card_length]) simp
  then have "k - 0 \<le> length tape" using assms(2) by simp
  from pool_loop_returns[OF this]
  obtain r1 where r1: "pool_loop (length population) k 0 tape population (replicate k None) = Some r1"
    by blast
  have "k - 0 \<le> card ((\<lambda>t. t mod length population) ` set tape - {})"
    using assms(2) by simp
  from set_loop_returns[OF this]
  obtain r2 where r2: "set_loop (length population) k 0 tape population {} (replicate k None) = Some r2"
    by blast
  show ?thesis using assms(1) r1 r2 by (simp add: random_sample_def Let_def)
qed

lemma random_sample_no_error:
  "k \<le> length population \<Longrightarrow> random_sample ceil_log4 tape population k \<noteq> Some (Inl ValueError)"
  by (auto simp: random_sample_def Let_def)

text \<open>
  C6: the sample handed to ontology inference is
  \<open>random.sample(sources, round(len(sources) * percent))\<close> with \<open>percent = 0.1\<close>.
  The requested size never exceeds the number of sources, so the call does not raise
  \<open>ValueError\<close>; below \<open>2 ^ 52\<close> sources it is the integer nearest to a tenth of
  their number, ties to even. Whenever the call returns, the list it returns has exactly
  that size and consists of the sources at pairwise different positions of the source list:
  it is a subset of the sources, free of duplicates when the source list is. The call does
  return on every tape whose draws fall on at least that many different positions.
\<close>

theorem sampled_sources_duplicate_free_subset:
  "sample_size (length sources) \<le> length sources
   \<and> (length sources < 2 ^ 52 \<longrightarrow>
        sample_size (length sources) = round_tenth (length sources))
   \<and> sampled_sources ceil_log4 tape sources \<noteq> Some (Inl ValueError)
   \<and> (sampled_sources ceil_log4 tape sources = Some (Inr res) \<longrightarrow>
        length res = sample_size (length sources)
        \<and> (\<exists>chosen. distinct chosen \<and> set chosen \<subseteq> {..<length sources}
              \<and> res = map (\<lambda>j. Some (sources ! j)) chosen)
        \<and> set res \<subseteq> Some ` set sources
        \<and> (distinct sources \<longrightarrow> distinct res))
   \<and> (sample_size (length sources) \<le> card ((\<lambda>t. t mod length sources) ` set tape) \<longrightarrow>
        (\<exists>res. sampled_sources ceil_log4 tape sources = Some (Inr res)))"
proof (intro conjI impI)
  show le: "sample_size (length sources) \<le> length sources" by (rule sample_size_le)
  show "sample_size (length sources) = round_tenth (length sources)"
    if "length sources < 2 ^ 52"
    using that by (rule sample_size_round_tenth)
  show "sampled_sources ceil_log4 tape sources \<noteq> Some (Inl ValueError)"
    unfolding sampled_sources_def by (rule random_sample_no_error[OF le])
  show "\<exists>res. sampled_sources ceil_log4 tape sources = Some (Inr res)"
    if "sample_size (length sources) \<le> card ((\<lambda>t. t mod length sources) ` set tape)"
    unfolding sampled_sources_def by (rule random_sample_returns[OF le that])
next
  assume "sampled_sources ceil_log4 tape sources = Some (Inr res)"
  then obtain chosen where c: "res = map (\<lambda>j. Some (sources ! j)) chosen"
      "length chosen = sample_size (length sources)" "distinct chosen"
      "set chosen \<subseteq> {..<length sources}"
    unfolding sampled_sources_def using random_sample_result by blast
  show "length res = sample_size (length sources)" using c(1,2) by simp
  show "\<exists>chosen. distinct chosen \<and> set chosen \<subseteq> {..<length sources}
              \<and> res = map (\<lambda>j. Some (sources ! j)) chosen"
    using c by blast
  show "set res \<subseteq> Some ` set sources"
    unfolding c(1) by (rule chosen_positions(1)[OF c(3,4)])
  show "distinct res" if "distinct sources"
    unfolding c(1) by (rule chosen_positions(2)[OF c(3,4) that])
qed

lemma random_sample_redraws:
  "random_sample (\<lambda>_. 0) [7, 7, 29, 7, 12] [100 ..< 130 :: nat] 3
     = Some (Inr [Some 107, Some 129, Some 112])"
proof -
  have slots: "replicate 3 (None :: nat option) = [None, None, None]"
    by (simp add: numeral_3_eq_3)
  show ?thesis
    by (simp add: random_sample_def Let_def set_loop.simps slots)
qed

text \<open>
  Two runs with a sample of two. Fifteen sources are sampled through the pool: both draws
  hit slot 3, and the second finds there the source moved in from the end of the pool.
  Twenty-five sources, a tie of the rounding, are sampled through the set of selected
  positions: the second draw repeats position 7 and is drawn again.
\<close>

theorem sampled_sources_duplicate_free_subset_witness:
  "sample_size (length (map (\<lambda>c. FileSource [c]) ''abcdefghijklmno'')) = 2
   \<and> round_tenth (length (map (\<lambda>c. FileSource [c]) ''abcdefghijklmno'')) = 2
   \<and> sampled_sources (\<lambda>_. 0) [3, 17] (map (\<lambda>c. FileSource [c]) ''abcdefghijklmno'')
       = Some (Inr [Some (FileSource ''d''), Some (FileSource ''o'')])
   \<and> distinct (map (\<lambda>c. FileSource [c]) ''abcdefghijklmno'')
   \<and> distinct [Some (FileSource ''d''), Some (FileSource ''o'')]
   \<and> sample_size (length (map (\<lambda>c. FileSource [c]) ''abcdefghijklmnopqrstuvwxy'')) = 2
   \<and> round_tenth (length (map (\<lambda>c. FileSource [c]) ''abcdefghijklmnopqrstuvwxy'')) = 2
   \<and> sampled_sources (\<lambda>_. 0) [7, 7, 3]
        (map (\<lambda>c. FileSource [c]) ''abcdefghijklmnopqrstuvwxy'')
       = Some (Inr [Some (FileSource ''h''), Some (FileSource ''d'')])
   \<and> distinct (map (\<lambda>c. FileSource [c]) ''abcdefghijklmnopqrstuvwxy'')
   \<and> distinct [Some (FileSource ''h''), Some (FileSource ''d'')]"
proof -
  define S15 where "S15 = map (\<lambda>c. FileSource [c]) ''abcdefghijklmno''"
  define S25 where "S25 = map (\<lambda>c. FileSource [c]) ''abcdefghijklmnopqrstuvwxy''"
  have slots: "replicate 2 (None :: source option) = [None, None]"
    by (simp add: numeral_2_eq_2)
  have len15: "length S15 = 15" and len25: "length S25 = 25"
    by (simp_all add: S15_def S25_def)
  have size15: "sample_size 15 = 2" and size25: "sample_size 25 = 2"
    by (simp_all add: float_eval)
  have tenth: "round_tenth 15 = 2" "round_tenth 25 = 2"
    by (simp_all add: round_tenth_def)
  have run15: "sampled_sources (\<lambda>_. 0) [3, 17] S15
                 = Some (Inr [Some (FileSource ''d''), Some (FileSource ''o'')])"
    apply (simp only: sampled_sources_def len15 size15 random_sample_def Let_def slots)
    apply (simp add: pool_loop.simps S15_def)
    done
  have run25: "sampled_sources (\<lambda>_. 0) [7, 7, 3] S25
                 = Some (Inr [Some (FileSource ''h''), Some (FileSource ''d'')])"
    apply (simp only: sampled_sources_def len25 size25 random_sample_def Let_def slots)
    apply (simp add: set_loop.simps S25_def)
    done
  have dist: "distinct S15" "distinct S25"
    by (simp_all add: S15_def S25_def)
  have draws: "2 \<le> card ((\<lambda>t. t mod 15) ` set [3, 17 :: nat])"
    "2 \<le> card ((\<lambda>t. t mod 25) ` set [7, 7, 3 :: nat])"
    by simp_all
  have small: "(15::nat) < 2 ^ 52" "(25::nat) < 2 ^ 52" by simp_all
  from sampled_sources_duplicate_free_subset
         [of S15 "\<lambda>_. 0" "[3, 17]" "[Some (FileSource ''d''), Some (FileSource ''o'')]"]
       sampled_sources_duplicate_free_subset
         [of S25 "\<lambda>_. 0" "[7, 7, 3]" "[Some (FileSource ''h''), Some (FileSource ''d'')]"]
  have "distinct [Some (FileSource ''d''), Some (FileSource ''o'')]
        \<and> distinct [Some (FileSource ''h''), Some (FileSource ''d'')]
        \<and> sample_size (length S15) = round_tenth (length S15)
        \<and> sample_size (length S25) = round_tenth (length S25)"
    using run15 run25 dist draws small len15 len25 by simp
  then show ?thesis
    unfolding S15_def[symmetric] S25_def[symmetric]
    using run15 run25 dist by (simp add: len15 len25 size15 size25 tenth)
qed

text \<open>
  C10: for a source directory of one to five files \<open>round(len(sources) * percent)\<close> is 0
  (the product for five files is the double \<open>0.5\<close>, a tie that goes to the even
  neighbour 0), so the sampled list is empty and ontology inference receives no source.
  This holds for the list \<open>sources\<close> as the loading loop leaves it, which has one source
  per file when the loop has run to the end.
\<close>

theorem small_corpus_sample_is_empty:
  "1 \<le> length listing \<Longrightarrow> length listing \<le> 5 \<Longrightarrow>
   sources_from_dir Source listing = (raised, sources) \<Longrightarrow>
     sample_size (length sources) = 0
     \<and> sampled_sources ceil_log4 tape sources = Some (Inr [])
     \<and> float_mul (int_to_float 5) percent = \<lparr>mant = 2 ^ 52, expo = - 53\<rparr>
     \<and> (raised = None \<longrightarrow> length sources = length listing)"
proof -
  assume "1 \<le> length listing" and five: "length listing \<le> 5"
    and run: "sources_from_dir Source listing = (raised, sources)"
  have "length sources \<le> length listing" using run by (rule sources_from_dir_length)
  then consider "length sources = 0" | "length sources = 1" | "length sources = 2"
    | "length sources = 3" | "length sources = 4" | "length sources = 5"
    using five by linarith
  then have size: "sample_size (length sources) = 0"
    by cases (simp_all only: sample_size_small sample_size_0)
  then have empty: "sampled_sources ceil_log4 tape sources = Some (Inr [])"
    by (simp only: sampled_sources_def random_sample_empty)
  have "length sources = length listing" if "raised = None"
    using run that sources_from_dir_completed(1) by blast
  then show ?thesis using size empty small_products(5) by simp
qed

text \<open>A directory of five HTML files, any generator: the tie.\<close>

theorem small_corpus_sample_is_empty_witness:
  "1 \<le> length [''a.html'', ''b.html'', ''c.html'', ''d.html'', ''e.html'']
   \<and> length [''a.html'', ''b.html'', ''c.html'', ''d.html'', ''e.html''] \<le> 5
   \<and> sources_from_dir html_only [''a.html'', ''b.html'', ''c.html'', ''d.html'', ''e.html'']
       = (None, [FileSource ''examples/ufc/data/fight/a.html'',
                 FileSource ''examples/ufc/data/fight/b.html'',
                 FileSource ''examples/ufc/data/fight/c.html'',
                 FileSource ''examples/ufc/data/fight/d.html'',
                 FileSource ''examples/ufc/data/fight/e.html''])
   \<and> sample_size 5 = 0
   \<and> sampled_sources (\<lambda>_. 0) []
        [FileSource ''examples/ufc/data/fight/a.html'',
         FileSource ''examples/ufc/data/fight/b.html'',
         FileSource ''examples/ufc/data/fight/c.html'',
         FileSource ''examples/ufc/data/fight/d.html'',
         FileSource ''examples/ufc/data/fight/e.html'']
       = Some (Inr [])"
proof -
  have run: "sources_from_dir html_only
               [''a.html'', ''b.html'', ''c.html'', ''d.html'', ''e.html'']
       = (None, [FileSource ''examples/ufc/data/fight/a.html'',
                 FileSource ''examples/ufc/data/fight/b.html'',
                 FileSource ''examples/ufc/data/fight/c.html'',
                 FileSource ''examples/ufc/data/fight/d.html'',
                 FileSource ''examples/ufc/data/fight/e.html''])"
    by (simp add: sources_from_dir_def html_only_def path_join_def src_files_def)
  have "1 \<le> length [''a.html'', ''b.html'', ''c.html'', ''d.html'', ''e.html'']"
    and "length [''a.html'', ''b.html'', ''c.html'', ''d.html'', ''e.html''] \<le> 5"
    by simp_all
  from small_corpus_sample_is_empty[OF this run, of "\<lambda>_. 0" "[]"]
  show ?thesis using run sample_size_small(5) by simp
qed

end
